theory Spec2Isabelle
  imports Main "HOL-Library.Word"
begin

section \<open>Data model\<close>

text \<open>
  The two C modules \<^verbatim>\<open>mathlib.c\<close> and \<^verbatim>\<open>sample.c\<close> work on \<^verbatim>\<open>int32_t\<close> scalars,
  on arrays and strings passed as pointers, on two-field structs passed by value and on
  a function pointer.

  \<^item> \<^verbatim>\<open>int32_t\<close> is a 32-bit word. Arithmetic on it wraps around (two's complement);
    comparisons are the signed ones (\<open>\<le>s\<close>, \<open><s\<close>).
  \<^item> \<^verbatim>\<open>char\<close> is an 8-bit word; the string terminator is the byte 0.
  \<^item> \<^verbatim>\<open>size_t\<close> is a natural number. Every \<^verbatim>\<open>size_t\<close> counter of the source stays
    below a bound that is itself a \<^verbatim>\<open>size_t\<close>, and the only subtractions
    (\<^verbatim>\<open>max_len - 1\<close>, \<^verbatim>\<open>len - 1 - i\<close>) are evaluated where they cannot go below 0.
  \<^item> Memory is a finite sequence of cells. A pointer is null or the address (index)
    of a cell; \<^verbatim>\<open>p[i]\<close> is the cell at address \<open>p + i\<close>. Reading or writing through
    the null pointer or outside the memory, and calling a null function pointer, is a
    fault: the C standard leaves it undefined, the model stops with an error value.
\<close>

type_synonym int32_t = "32 word"
type_synonym char_t = "8 word"
type_synonym size_t = nat

datatype fault = NullDeref | OutOfBounds | NullCall

datatype ptr = Null | Ptr nat

fun load :: "'a list \<Rightarrow> ptr \<Rightarrow> nat \<Rightarrow> fault + 'a" where
  "load m Null i = Inl NullDeref"
| "load m (Ptr a) i = (if a + i < length m then Inr (m ! (a + i)) else Inl OutOfBounds)"

fun store :: "'a list \<Rightarrow> ptr \<Rightarrow> nat \<Rightarrow> 'a \<Rightarrow> fault + 'a list" where
  "store m Null i v = Inl NullDeref"
| "store m (Ptr a) i v = (if a + i < length m then Inr (m[a + i := v]) else Inl OutOfBounds)"

text \<open>\<^verbatim>\<open>typedef struct { int32_t x; int32_t y; } Point;\<close> (mathlib.h) and the same for
  \<^verbatim>\<open>Vec2\<close> (sample.h).\<close>

record Point =
  x :: int32_t
  y :: int32_t

record Vec2 =
  x :: int32_t
  y :: int32_t

text \<open>\<^verbatim>\<open>typedef int32_t (*BinaryOp)(int32_t, int32_t);\<close> A function pointer is null
  (\<open>None\<close>) or points to a function. The call \<^verbatim>\<open>op(a, b)\<close> through a null pointer
  is a fault.\<close>

type_synonym BinaryOp = "(int32_t \<Rightarrow> int32_t \<Rightarrow> int32_t) option"

definition call_BinaryOp :: "BinaryOp \<Rightarrow> int32_t \<Rightarrow> int32_t \<Rightarrow> fault + int32_t" where
  "call_BinaryOp op a b = (case op of None \<Rightarrow> Inl NullCall | Some f \<Rightarrow> Inr (f a b))"


section \<open>mathlib.c\<close>

subsection \<open>Arithmetic\<close>

definition add :: "int32_t \<Rightarrow> int32_t \<Rightarrow> int32_t" where
  "add a b = a + b"

definition multiply :: "int32_t \<Rightarrow> int32_t \<Rightarrow> int32_t" where
  "multiply a b = a * b"

text \<open>
  \<^verbatim>\<open>for (int32_t i = 2; i <= n; i++) result *= i;\<close>
  The counter is a signed 32-bit value that wraps, so the loop need not end: the
  result is \<open>None\<close> when it does not.
\<close>

partial_function (option) factorial_loop :: "int32_t \<Rightarrow> int32_t \<Rightarrow> int32_t \<Rightarrow> int32_t option" where
  "factorial_loop n i result =
     (if i \<le>s n then factorial_loop n (i + 1) (result * i) else Some result)"

declare factorial_loop.simps [code]

definition factorial :: "int32_t \<Rightarrow> int32_t option" where
  "factorial n = (if n \<le>s 1 then Some 1 else factorial_loop n 2 1)"

subsection \<open>Arrays\<close>

function array_sum_loop :: "int32_t list \<Rightarrow> ptr \<Rightarrow> size_t \<Rightarrow> size_t \<Rightarrow> int32_t \<Rightarrow> fault + int32_t" where
  "array_sum_loop m arr len i s =
     (if i < len then
        (case load m arr i of
           Inl e \<Rightarrow> Inl e
         | Inr v \<Rightarrow> array_sum_loop m arr len (Suc i) (s + v))
      else Inr s)"
  by pat_completeness auto
termination
  by (relation "measure (\<lambda>(m, arr, len, i, s). len - i)") auto

definition array_sum :: "int32_t list \<Rightarrow> ptr \<Rightarrow> size_t \<Rightarrow> fault + int32_t" where
  "array_sum m arr len = array_sum_loop m arr len 0 0"

function array_double_loop :: "int32_t list \<Rightarrow> ptr \<Rightarrow> size_t \<Rightarrow> size_t \<Rightarrow> fault + int32_t list" where
  "array_double_loop m arr len i =
     (if i < len then
        (case load m arr i of
           Inl e \<Rightarrow> Inl e
         | Inr v \<Rightarrow>
             (case store m arr i (v * 2) of
                Inl e \<Rightarrow> Inl e
              | Inr m' \<Rightarrow> array_double_loop m' arr len (Suc i)))
      else Inr m)"
  by pat_completeness auto
termination
  by (relation "measure (\<lambda>(m, arr, len, i). len - i)") auto

definition array_double :: "int32_t list \<Rightarrow> ptr \<Rightarrow> size_t \<Rightarrow> fault + int32_t list" where
  "array_double m arr len = array_double_loop m arr len 0"

subsection \<open>Strings\<close>

text \<open>\<^verbatim>\<open>while (*str) { if (*str == target) count++; str++; }\<close>\<close>

fun ptr_add :: "ptr \<Rightarrow> nat \<Rightarrow> ptr" where
  "ptr_add Null k = Null"
| "ptr_add (Ptr a) k = Ptr (a + k)"

fun addr_of :: "ptr \<Rightarrow> nat" where
  "addr_of Null = 0"
| "addr_of (Ptr a) = a"

function count_chars_loop :: "char_t list \<Rightarrow> ptr \<Rightarrow> char_t \<Rightarrow> size_t \<Rightarrow> fault + size_t" where
  "count_chars_loop m str target count =
     (case load m str 0 of
        Inl e \<Rightarrow> Inl e
      | Inr c \<Rightarrow>
          if c \<noteq> 0 then
            count_chars_loop m (ptr_add str 1) target (if c = target then Suc count else count)
          else Inr count)"
  by pat_completeness auto
termination
proof (relation "measure (\<lambda>(m, str, target, count). length m - addr_of str)")
  show "wf (measure (\<lambda>(m, str, target, count). length m - addr_of str))"
    by simp
next
  fix m :: "char_t list" and str target and count :: size_t and c
  assume "load m str 0 = Inr c"
  then show "((m, ptr_add str 1, target, if c = target then Suc count else count),
              (m, str, target, count))
             \<in> measure (\<lambda>(m, str, target, count). length m - addr_of str)"
    by (cases str) (auto split: if_splits)
qed

definition count_chars :: "char_t list \<Rightarrow> ptr \<Rightarrow> char_t \<Rightarrow> fault + size_t" where
  "count_chars m str target = count_chars_loop m str target 0"

text \<open>\<^verbatim>\<open>strlen\<close> of the C library (\<^verbatim>\<open>string.h\<close>): the number of bytes before the
  first terminator. It has no null check.\<close>

function strlen_loop :: "char_t list \<Rightarrow> ptr \<Rightarrow> size_t \<Rightarrow> fault + size_t" where
  "strlen_loop m str len =
     (case load m str len of
        Inl e \<Rightarrow> Inl e
      | Inr c \<Rightarrow> if c \<noteq> 0 then strlen_loop m str (Suc len) else Inr len)"
  by pat_completeness auto
termination
proof (relation "measure (\<lambda>(m, str, len). length m - (addr_of str + len))")
  show "wf (measure (\<lambda>(m, str, len). length m - (addr_of str + len)))"
    by simp
next
  fix m :: "char_t list" and str and len :: size_t and c
  assume "load m str len = Inr c"
  then show "((m, str, Suc len), (m, str, len))
             \<in> measure (\<lambda>(m, str, len). length m - (addr_of str + len))"
    by (cases str) (auto split: if_splits)
qed

definition strlen :: "char_t list \<Rightarrow> ptr \<Rightarrow> fault + size_t" where
  "strlen m str = strlen_loop m str 0"

function reverse_string_loop :: "char_t list \<Rightarrow> ptr \<Rightarrow> size_t \<Rightarrow> size_t \<Rightarrow> fault + char_t list" where
  "reverse_string_loop m str len i =
     (if i < len div 2 then
        (case load m str i of
           Inl e \<Rightarrow> Inl e
         | Inr tmp \<Rightarrow>
             (case load m str (len - 1 - i) of
                Inl e \<Rightarrow> Inl e
              | Inr c \<Rightarrow>
                  (case store m str i c of
                     Inl e \<Rightarrow> Inl e
                   | Inr m1 \<Rightarrow>
                       (case store m1 str (len - 1 - i) tmp of
                          Inl e \<Rightarrow> Inl e
                        | Inr m2 \<Rightarrow> reverse_string_loop m2 str len (Suc i)))))
      else Inr m)"
  by pat_completeness auto
termination
  by (relation "measure (\<lambda>(m, str, len, i). len div 2 - i)") auto

definition reverse_string :: "char_t list \<Rightarrow> ptr \<Rightarrow> fault + char_t list" where
  "reverse_string m str =
     (case strlen m str of
        Inl e \<Rightarrow> Inl e
      | Inr len \<Rightarrow> reverse_string_loop m str len 0)"

subsection \<open>Structs\<close>

definition point_add :: "Point \<Rightarrow> Point \<Rightarrow> Point" where
  "point_add a b = \<lparr> Point.x = Point.x a + Point.x b, Point.y = Point.y a + Point.y b \<rparr>"

definition point_distance_squared :: "Point \<Rightarrow> Point \<Rightarrow> int32_t" where
  "point_distance_squared a b =
     (let dx = Point.x b - Point.x a; dy = Point.y b - Point.y a in dx * dx + dy * dy)"

subsection \<open>Callback\<close>

definition apply_operation :: "int32_t \<Rightarrow> int32_t \<Rightarrow> BinaryOp \<Rightarrow> fault + int32_t" where
  "apply_operation a b op = call_BinaryOp op a b"


section \<open>sample.c\<close>

definition add_numbers :: "int32_t \<Rightarrow> int32_t \<Rightarrow> int32_t" where
  "add_numbers a b = a + b"

definition multiply_numbers :: "int32_t \<Rightarrow> int32_t \<Rightarrow> int32_t" where
  "multiply_numbers a b = a * b"

function sum_array_loop :: "int32_t list \<Rightarrow> ptr \<Rightarrow> size_t \<Rightarrow> size_t \<Rightarrow> int32_t \<Rightarrow> fault + int32_t" where
  "sum_array_loop m arr len i s =
     (if i < len then
        (case load m arr i of
           Inl e \<Rightarrow> Inl e
         | Inr v \<Rightarrow> sum_array_loop m arr len (Suc i) (s + v))
      else Inr s)"
  by pat_completeness auto
termination
  by (relation "measure (\<lambda>(m, arr, len, i, s). len - i)") auto

definition sum_array :: "int32_t list \<Rightarrow> ptr \<Rightarrow> size_t \<Rightarrow> fault + int32_t" where
  "sum_array m arr len = sum_array_loop m arr len 0 0"

function double_array_loop :: "int32_t list \<Rightarrow> ptr \<Rightarrow> size_t \<Rightarrow> size_t \<Rightarrow> fault + int32_t list" where
  "double_array_loop m arr len i =
     (if i < len then
        (case load m arr i of
           Inl e \<Rightarrow> Inl e
         | Inr v \<Rightarrow>
             (case store m arr i (v * 2) of
                Inl e \<Rightarrow> Inl e
              | Inr m' \<Rightarrow> double_array_loop m' arr len (Suc i)))
      else Inr m)"
  by pat_completeness auto
termination
  by (relation "measure (\<lambda>(m, arr, len, i). len - i)") auto

definition double_array :: "int32_t list \<Rightarrow> ptr \<Rightarrow> size_t \<Rightarrow> fault + int32_t list" where
  "double_array m arr len = double_array_loop m arr len 0"

definition vec2_add :: "Vec2 \<Rightarrow> Vec2 \<Rightarrow> Vec2" where
  "vec2_add a b = \<lparr> Vec2.x = Vec2.x a + Vec2.x b, Vec2.y = Vec2.y a + Vec2.y b \<rparr>"

definition vec2_scale :: "Vec2 \<Rightarrow> int32_t \<Rightarrow> Vec2" where
  "vec2_scale v factor = \<lparr> Vec2.x = Vec2.x v * factor, Vec2.y = Vec2.y v * factor \<rparr>"

definition vec2_dot :: "Vec2 \<Rightarrow> Vec2 \<Rightarrow> int32_t" where
  "vec2_dot a b = Vec2.x a * Vec2.x b + Vec2.y a * Vec2.y b"

text \<open>\<^verbatim>\<open>if (!str) return 0; size_t len = 0; while (str[len]) len++; return len;\<close>\<close>

function string_length_loop :: "char_t list \<Rightarrow> ptr \<Rightarrow> size_t \<Rightarrow> fault + size_t" where
  "string_length_loop m str len =
     (case load m str len of
        Inl e \<Rightarrow> Inl e
      | Inr c \<Rightarrow> if c \<noteq> 0 then string_length_loop m str (Suc len) else Inr len)"
  by pat_completeness auto
termination
proof (relation "measure (\<lambda>(m, str, len). length m - (addr_of str + len))")
  show "wf (measure (\<lambda>(m, str, len). length m - (addr_of str + len)))"
    by simp
next
  fix m :: "char_t list" and str and len :: size_t and c
  assume "load m str len = Inr c"
  then show "((m, str, Suc len), (m, str, len))
             \<in> measure (\<lambda>(m, str, len). length m - (addr_of str + len))"
    by (cases str) (auto split: if_splits)
qed

definition string_length :: "char_t list \<Rightarrow> ptr \<Rightarrow> fault + size_t" where
  "string_length m str = (if str = Null then Inr 0 else string_length_loop m str 0)"

text \<open>
  \<^verbatim>\<open>for (i = 0; i < max_len - 1 && src[i]; i++) dest[i] = src[i];  dest[i] = '\0';\<close>
  The loop hands back the memory and the final value of \<open>i\<close>. \<^verbatim>\<open>src[i]\<close> is read
  only when \<open>i < max_len - 1\<close> (\<^verbatim>\<open>&&\<close> short-circuits); no write happens between
  the test and the assignment, so the byte tested is the byte stored.
\<close>

function string_copy_loop ::
  "char_t list \<Rightarrow> ptr \<Rightarrow> ptr \<Rightarrow> size_t \<Rightarrow> size_t \<Rightarrow> fault + (char_t list \<times> size_t)" where
  "string_copy_loop m dest src max_len i =
     (if i < max_len - 1 then
        (case load m src i of
           Inl e \<Rightarrow> Inl e
         | Inr c \<Rightarrow>
             if c \<noteq> 0 then
               (case store m dest i c of
                  Inl e \<Rightarrow> Inl e
                | Inr m' \<Rightarrow> string_copy_loop m' dest src max_len (Suc i))
             else Inr (m, i))
      else Inr (m, i))"
  by pat_completeness auto
termination
  by (relation "measure (\<lambda>(m, dest, src, max_len, i). max_len - 1 - i)") auto

definition string_copy :: "char_t list \<Rightarrow> ptr \<Rightarrow> ptr \<Rightarrow> size_t \<Rightarrow> fault + char_t list" where
  "string_copy m dest src max_len =
     (if dest = Null \<or> src = Null \<or> max_len = 0 then Inr m
      else
        (case string_copy_loop m dest src max_len 0 of
           Inl e \<Rightarrow> Inl e
         | Inr (m', i) \<Rightarrow> store m' dest i 0))"

definition apply_op :: "int32_t \<Rightarrow> int32_t \<Rightarrow> BinaryOp \<Rightarrow> fault + int32_t" where
  "apply_op a b op = (if Option.is_none op then Inr 0 else call_BinaryOp op a b)"



section \<open>Strings in memory\<close>

text \<open>The memory \<open>m\<close> holds a null-terminated string of length \<open>L\<close> at address \<open>a\<close>: the
  \<open>L\<close> bytes from \<open>a\<close> on are not 0, the byte at \<open>a + L\<close> is the terminator, and all of
  them are inside the memory.\<close>

definition c_string :: "char_t list \<Rightarrow> nat \<Rightarrow> nat \<Rightarrow> bool" where
  "c_string m a L \<longleftrightarrow> a + L < length m \<and> 0 \<notin> set (take L (drop a m)) \<and> m ! (a + L) = 0"

text \<open>The loop equations are unfolded by hand, one iteration at a time.\<close>

declare array_sum_loop.simps [simp del]
  array_double_loop.simps [simp del]
  count_chars_loop.simps [simp del]
  strlen_loop.simps [simp del]
  reverse_string_loop.simps [simp del]
  sum_array_loop.simps [simp del]
  double_array_loop.simps [simp del]
  string_length_loop.simps [simp del]
  string_copy_loop.simps [simp del]

section \<open>Properties\<close>

text \<open>C5: \<open>add\<close> and \<open>multiply\<close> return the sum and the product of their arguments
  reduced modulo \<open>2 ^ 32\<close> and read as a signed value; they are total: no input is
  rejected or adjusted.\<close>

theorem add_multiply_wraparound:
  "sint (add a b) = (sint a + sint b + 2 ^ 31) mod 2 ^ 32 - 2 ^ 31
   \<and> sint (multiply a b) = (sint a * sint b + 2 ^ 31) mod 2 ^ 32 - 2 ^ 31
   \<and> add a b = word_of_int (sint a + sint b)
   \<and> multiply a b = word_of_int (sint a * sint b)"
  by (simp add: add_def multiply_def sint_word_ariths signed_take_bit_eq_take_bit_shift take_bit_eq_mod)

subsection \<open>factorial\<close>

lemma factorial_loop_Some_not_max:
  "factorial_loop n i r = Some v \<Longrightarrow> n \<noteq> 2147483647"
proof (rule factorial_loop.raw_induct [where P = "\<lambda>n i r v. n \<noteq> 2147483647"])
  fix f :: "int32_t \<Rightarrow> int32_t \<Rightarrow> int32_t \<Rightarrow> int32_t option" and n i r v
  assume IH: "\<And>n i r v. f n i r = Some v \<Longrightarrow> n \<noteq> 2147483647"
    and body: "(if i \<le>s n then f n (i + 1) (r * i) else Some r) = Some v"
  show "n \<noteq> 2147483647"
  proof
    assume n: "n = 2147483647"
    have "sint i \<le> 2147483647" using sint_lt [of i] by simp
    then have "i \<le>s n" by (simp add: n word_sle_eq)
    with body have "f n (i + 1) (r * i) = Some v" by simp
    from IH [OF this] n show False by simp
  qed
qed

lemma sint_succ:
  fixes i :: int32_t
  assumes "sint i < 2147483647"
  shows "sint (i + 1) = sint i + 1"
  using assms sint_ge [of i] by (simp add: sint_word_ariths signed_take_bit_int_eq_self)

lemma factorial_loop_prod:
  fixes n i r :: int32_t
  assumes "sint n < 2147483647" and "1 \<le> sint i" and "sint i \<le> sint n + 1"
  shows "factorial_loop n i r = Some (r * prod word_of_nat {nat (sint i)..nat (sint n)})"
  using assms
proof (induction "nat (sint n + 1 - sint i)" arbitrary: i r)
  case 0
  then have "\<not> i \<le>s n" by (simp add: word_sle_eq)
  moreover from 0 have "nat (sint n) < nat (sint i)" by linarith
  then have "{nat (sint i)..nat (sint n)} = {}" by simp
  ultimately show ?case by (subst factorial_loop.simps) simp
next
  case (Suc k)
  then have le: "i \<le>s n" by (simp add: word_sle_eq)
  from Suc have lt: "sint i < 2147483647" by linarith
  have s: "sint (i + 1) = sint i + 1" by (rule sint_succ [OF lt])
  have "factorial_loop n (i + 1) (r * i) =
        Some (r * i * prod word_of_nat {nat (sint (i + 1))..nat (sint n)})"
    using Suc by (intro Suc.hyps(1)) (simp_all add: s)
  moreover have "nat (sint (i + 1)) = Suc (nat (sint i))" using Suc.prems by (simp add: s)
  moreover have "prod word_of_nat {nat (sint i)..nat (sint n)} =
      (word_of_nat (nat (sint i)) :: int32_t) * prod word_of_nat {Suc (nat (sint i))..nat (sint n)}"
    using Suc by (subst prod.atLeast_Suc_atMost) auto
  moreover have "(word_of_nat (nat (sint i)) :: int32_t) = i"
    using Suc.prems by simp
  ultimately show ?case using le
    by (subst factorial_loop.simps) (simp add: mult.assoc)
qed

lemma prod_fact:
  assumes "1 \<le> N"
  shows "prod word_of_nat {2..N} = (word_of_nat (fact N) :: int32_t)"
proof -
  have "{1..N} = insert 1 {2..N}" using assms by auto
  then have "prod word_of_nat {1..N} = (prod word_of_nat {2..N} :: int32_t)" by simp
  then show ?thesis by (simp add: fact_prod)
qed

text \<open>C4, as the code has it: for every \<open>n\<close> other than \<^verbatim>\<open>INT32_MAX\<close>, \<open>factorial n\<close>
  returns 1 when \<open>n \<le> 1\<close> (zero, one and every negative \<open>n\<close>) and otherwise the product
  \<open>2 * 3 * ... * n\<close> computed in 32-bit arithmetic, which is \<open>n!\<close> reduced modulo
  \<open>2 ^ 32\<close>; no \<open>n\<close> is rejected.\<close>

theorem factorial_below_int32_max:
  assumes "n \<noteq> 2147483647"
  shows "factorial n = Some (if n \<le>s 1 then 1 else prod word_of_nat {2..nat (sint n)})
       \<and> factorial n = Some (if n \<le>s 1 then 1 else word_of_nat (fact (nat (sint n))))"
proof (cases "n \<le>s 1")
  case True
  then show ?thesis by (simp add: factorial_def)
next
  case False
  then have n: "1 < sint n" by (simp add: word_sle_eq)
  have "sint n \<noteq> 2147483647"
  proof
    assume "sint n = 2147483647"
    then have "word_of_int (sint n) = (word_of_int 2147483647 :: int32_t)" by simp
    with assms show False by simp
  qed
  with sint_lt [of n] have "sint n < 2147483647" by simp
  then have "factorial_loop n 2 1 = Some (1 * prod word_of_nat {nat (sint (2::int32_t))..nat (sint n)})"
    using n by (intro factorial_loop_prod) simp_all
  moreover have "nat (sint (2::int32_t)) = 2" by simp
  ultimately have "factorial n = Some (prod word_of_nat {2..nat (sint n)})"
    using False by (simp add: factorial_def)
  moreover have "prod word_of_nat {2..nat (sint n)} = (word_of_nat (fact (nat (sint n))) :: int32_t)"
    using n by (intro prod_fact) simp
  ultimately show ?thesis using False by simp
qed

text \<open>At 0, 1, 5, 13 and a negative argument: \<open>5! = 120\<close>, and \<open>13! = 6227020800\<close>
  comes back as \<open>6227020800 - 2 ^ 32 = 1932053504\<close>.\<close>

theorem factorial_below_int32_max_witness:
  "(5 :: int32_t) \<noteq> 2147483647 \<and> factorial 5 = Some 120
   \<and> (13 :: int32_t) \<noteq> 2147483647 \<and> factorial 13 = Some 1932053504
   \<and> factorial 0 = Some 1 \<and> factorial 1 = Some 1 \<and> factorial (- 7) = Some 1"
  using factorial_below_int32_max [of 5, THEN conjunct2]
    factorial_below_int32_max [of 13, THEN conjunct2]
    factorial_below_int32_max [of 0, THEN conjunct2]
    factorial_below_int32_max [of 1, THEN conjunct2]
    factorial_below_int32_max [of "- 7", THEN conjunct2]
  by (simp add: word_sle_eq fact_numeral)

text \<open>C4, as stated, fails at \<open>n = 2147483647\<close> (\<^verbatim>\<open>INT32_MAX\<close>): \<open>i \<le> n\<close> holds for
  every 32-bit \<open>i\<close>, the counter wraps and the loop never ends, so \<open>factorial\<close> does not
  return.\<close>

theorem factorial_int32_max_diverges: "factorial 2147483647 = None"
proof -
  have "factorial_loop 2147483647 2 1 = None"
    using factorial_loop_Some_not_max [of 2147483647 2 1]
    by (cases "factorial_loop 2147483647 2 1") auto
  then show ?thesis by (simp add: factorial_def word_sle_eq)
qed

subsection \<open>Callbacks\<close>

text \<open>C3: \<open>apply_op\<close> returns \<open>op(a, b)\<close> when \<open>op\<close> is present and 0, with no call, when
  \<open>op\<close> is null. \<open>apply_operation\<close> has no guard: it always makes the call, which for a
  null \<open>op\<close> is a fault, so the two differ on a null \<open>op\<close>. With an adding \<open>op\<close>,
  \<open>apply_op 2 3 op\<close> is 5.\<close>

theorem apply_op_null_guard:
  "apply_op a b (Some f) = Inr (f a b)
   \<and> apply_op a b None = Inr 0
   \<and> apply_operation a b op = call_BinaryOp op a b
   \<and> apply_operation a b (Some f) = Inr (f a b)
   \<and> apply_operation a b None = Inl NullCall
   \<and> apply_op a b None \<noteq> apply_operation a b None
   \<and> apply_op 2 3 (Some add) = Inr 5
   \<and> apply_op 2 3 None = Inr 0"
  by (simp add: apply_op_def apply_operation_def call_BinaryOp_def add_def)


subsection \<open>The two modules\<close>

lemma sum_array_loop_eq: "sum_array_loop m arr len i s = array_sum_loop m arr len i s"
proof (induction m arr len i s rule: array_sum_loop.induct)
  case (1 m arr len i s)
  show ?case
    by (subst sum_array_loop.simps, subst array_sum_loop.simps)
       (simp add: 1 split: sum.splits)
qed

lemma double_array_loop_eq: "double_array_loop m arr len i = array_double_loop m arr len i"
proof (induction m arr len i rule: array_double_loop.induct)
  case (1 m arr len i)
  show ?case
    by (subst double_array_loop.simps, subst array_double_loop.simps)
       (simp add: 1 split: sum.splits)
qed

text \<open>C9: the paired functions of the two modules agree: \<open>add\<close> with \<open>add_numbers\<close>,
  \<open>multiply\<close> with \<open>multiply_numbers\<close>; \<open>array_sum\<close> with \<open>sum_array\<close> and \<open>array_double\<close>
  with \<open>double_array\<close> on every memory, pointer and length (the same value or final
  memory, or the same fault); \<open>point_add\<close> with \<open>vec2_add\<close> component by component on
  arguments with equal components.\<close>

theorem modules_agree:
  "add a b = add_numbers a b
   \<and> multiply a b = multiply_numbers a b
   \<and> array_sum m arr len = sum_array m arr len
   \<and> array_double m arr len = double_array m arr len
   \<and> (Point.x p = Vec2.x v \<and> Point.y p = Vec2.y v \<and> Point.x q = Vec2.x w \<and> Point.y q = Vec2.y w
        \<longrightarrow> Point.x (point_add p q) = Vec2.x (vec2_add v w)
          \<and> Point.y (point_add p q) = Vec2.y (vec2_add v w))"
  by (simp add: add_def add_numbers_def multiply_def multiply_numbers_def
      array_sum_def sum_array_def sum_array_loop_eq
      array_double_def double_array_def double_array_loop_eq
      point_add_def vec2_add_def)

text \<open>Both modules at \<open>{1,2} + {3,4}\<close> and at the array \<open>[1,2,3]\<close>.\<close>

theorem modules_agree_witness:
  "Point.x (point_add \<lparr>Point.x = 1, Point.y = 2\<rparr> \<lparr>Point.x = 3, Point.y = 4\<rparr>) = 4
   \<and> Vec2.x (vec2_add \<lparr>Vec2.x = 1, Vec2.y = 2\<rparr> \<lparr>Vec2.x = 3, Vec2.y = 4\<rparr>) = 4
   \<and> Point.y (point_add \<lparr>Point.x = 1, Point.y = 2\<rparr> \<lparr>Point.x = 3, Point.y = 4\<rparr>) = 6
   \<and> Vec2.y (vec2_add \<lparr>Vec2.x = 1, Vec2.y = 2\<rparr> \<lparr>Vec2.x = 3, Vec2.y = 4\<rparr>) = 6
   \<and> array_sum [1, 2, 3] (Ptr 0) 3 = Inr 6
   \<and> sum_array [1, 2, 3] (Ptr 0) 3 = Inr 6
   \<and> double_array [1, 2, 3] (Ptr 0) 3 = Inr [2, 4, 6]
   \<and> array_double [1, 2, 3] (Ptr 0) 3 = Inr [2, 4, 6]"
proof -
  note h = modules_agree [of _ _ "[1, 2, 3]" "Ptr 0" 3
      "\<lparr>Point.x = 1, Point.y = 2\<rparr>" "\<lparr>Vec2.x = 1, Vec2.y = 2\<rparr>"
      "\<lparr>Point.x = 3, Point.y = 4\<rparr>" "\<lparr>Vec2.x = 3, Vec2.y = 4\<rparr>"]
  have v: "Vec2.x (vec2_add \<lparr>Vec2.x = 1, Vec2.y = 2\<rparr> \<lparr>Vec2.x = 3, Vec2.y = 4\<rparr>) = 4"
    "Vec2.y (vec2_add \<lparr>Vec2.x = 1, Vec2.y = 2\<rparr> \<lparr>Vec2.x = 3, Vec2.y = 4\<rparr>) = 6"
    by (simp_all add: vec2_add_def)
  have s: "sum_array [1, 2, 3] (Ptr 0) 3 = Inr 6"
    by code_simp
  have d: "double_array [1, 2, 3] (Ptr 0) 3 = Inr [2, 4, 6]"
    by code_simp
  from h v s d show ?thesis by simp
qed

subsection \<open>string_copy: the guard\<close>

text \<open>C2: if \<open>dest\<close> is null, or \<open>src\<close> is null, or \<open>max_len\<close> is 0, \<open>string_copy\<close> returns
  at once and the memory, so every byte of \<open>dest\<close>, is what it was.\<close>

theorem string_copy_noop:
  assumes "dest = Null \<or> src = Null \<or> max_len = 0"
  shows "string_copy m dest src max_len = Inr m"
  using assms by (auto simp: string_copy_def)

text \<open>One call for each of the three guards.\<close>

theorem string_copy_noop_witness:
  "string_copy [7, 8, 9] Null (Ptr 0) 3 = Inr [7, 8, 9]
   \<and> string_copy [7, 8, 9] (Ptr 0) Null 3 = Inr [7, 8, 9]
   \<and> string_copy [7, 8, 9] (Ptr 0) (Ptr 1) 0 = Inr [7, 8, 9]"
  using string_copy_noop [of Null "Ptr 0" 3 "[7, 8, 9]"]
    string_copy_noop [of "Ptr 0" Null 3 "[7, 8, 9]"]
    string_copy_noop [of "Ptr 0" "Ptr 1" 0 "[7, 8, 9]"]
  by simp

subsection \<open>array_double\<close>

lemma array_double_loop_map:
  assumes "a + len \<le> length m"
  shows "array_double_loop m (Ptr a) len i =
         Inr (map (\<lambda>j. if a + i \<le> j \<and> j < a + len then m ! j * 2 else m ! j) [0..<length m])"
  using assms
proof (induction m "Ptr a" len i rule: array_double_loop.induct)
  case (1 m len i)
  show ?case
  proof (cases "i < len")
    case False
    then have "map (\<lambda>j. if a + i \<le> j \<and> j < a + len then m ! j * 2 else m ! j) [0..<length m] = m"
      by (intro nth_equalityI) auto
    with False show ?thesis by (subst array_double_loop.simps) simp
  next
    case True
    let ?m' = "m[a + i := m ! (a + i) * 2]"
    from True 1(2) have v: "a + i < length m" by simp
    have "array_double_loop ?m' (Ptr a) len (Suc i) =
          Inr (map (\<lambda>j. if a + Suc i \<le> j \<and> j < a + len then ?m' ! j * 2 else ?m' ! j) [0..<length ?m'])"
      using True v 1(2) by (intro 1(1)) auto
    also have "map (\<lambda>j. if a + Suc i \<le> j \<and> j < a + len then ?m' ! j * 2 else ?m' ! j) [0..<length ?m'] =
        map (\<lambda>j. if a + i \<le> j \<and> j < a + len then m ! j * 2 else m ! j) [0..<length m]"
      using True v by (intro nth_equalityI) (auto simp: nth_list_update)
    finally show ?thesis using True v by (subst array_double_loop.simps) simp
  qed
qed

lemma double_region:
  assumes "a + len \<le> length m"
  shows "map (\<lambda>j. if a \<le> j \<and> j < a + len then m ! j * 2 else m ! j) [0..<length m] =
         take a m @ map (\<lambda>v. v * 2) (take len (drop a m)) @ drop (a + len) m"
  using assms by (intro nth_equalityI) (auto simp: nth_append min_def)

text \<open>C6: for an array of \<open>len\<close> cells at address \<open>a\<close>, \<open>array_double\<close> returns the memory
  in which each \<open>arr[i]\<close>, \<open>i < len\<close>, is its old value times 2 (wrapping), every other
  cell and the size of the memory are unchanged, and nothing else is returned; with
  \<open>len = 0\<close> the memory is unchanged, whatever the pointer.\<close>

theorem array_double_in_place:
  assumes "a + len \<le> length m"
  shows "\<exists>m'. array_double m (Ptr a) len = Inr m'
           \<and> m' = take a m @ map (\<lambda>v. v * 2) (take len (drop a m)) @ drop (a + len) m
           \<and> length m' = length m
           \<and> (\<forall>i<len. m' ! (a + i) = m ! (a + i) * 2)
           \<and> (\<forall>j<length m. j < a \<or> a + len \<le> j \<longrightarrow> m' ! j = m ! j)
           \<and> array_double m arr 0 = Inr m"
proof -
  let ?m' = "map (\<lambda>j. if a \<le> j \<and> j < a + len then m ! j * 2 else m ! j) [0..<length m]"
  have r1: "array_double m (Ptr a) len = Inr ?m'"
    using array_double_loop_map [OF assms, of 0] by (simp add: array_double_def)
  have r2: "?m' = take a m @ map (\<lambda>v. v * 2) (take len (drop a m)) @ drop (a + len) m"
    by (rule double_region [OF assms])
  have r3: "length ?m' = length m" by simp
  have r4: "\<forall>i<len. ?m' ! (a + i) = m ! (a + i) * 2" using assms by simp
  have r5: "\<forall>j<length m. j < a \<or> a + len \<le> j \<longrightarrow> ?m' ! j = m ! j" by auto
  have r6: "array_double m arr 0 = Inr m" by (simp add: array_double_def array_double_loop.simps)
  show ?thesis
    by (rule exI [where x = ?m'], intro conjI) (fact r1 r2 r3 r4 r5 r6)+
qed

text \<open>\<open>[1,2,3]\<close> becomes \<open>[2,4,6]\<close>; the cells around the array stay; doubling wraps.\<close>

theorem array_double_in_place_witness:
  "array_double [1, 2, 3] (Ptr 0) 3 = Inr [2, 4, 6]
   \<and> array_double [9, 1, 2, 3, 7] (Ptr 1) 3 = Inr [9, 2, 4, 6, 7]
   \<and> array_double [2147483647, - 2147483648] (Ptr 0) 2 = Inr [- 2, 0]
   \<and> array_double [1, 2, 3] Null 0 = Inr [1, 2, 3]"
proof -
  have "0 + 3 \<le> length [1, 2, 3 :: int32_t]" by simp
  from array_double_in_place [OF this, of Null]
  have a: "array_double [1, 2, 3] (Ptr 0) 3 = Inr [2, 4, 6]"
    and d: "array_double [1, 2, 3] Null 0 = Inr [1, 2, 3]"
    by (elim exE conjE, simp)+
  have "1 + 3 \<le> length [9, 1, 2, 3, 7 :: int32_t]" by simp
  from array_double_in_place [OF this, of Null]
  have b: "array_double [9, 1, 2, 3, 7] (Ptr 1) 3 = Inr [9, 2, 4, 6, 7]"
    by (elim exE conjE) simp
  have "0 + 2 \<le> length [2147483647, - 2147483648 :: int32_t]" by simp
  from array_double_in_place [OF this, of Null]
  have c: "array_double [2147483647, - 2147483648] (Ptr 0) 2 = Inr [- 2, 0]"
    by (elim exE conjE) simp
  from a b c d show ?thesis by simp
qed


subsection \<open>Scanning a string\<close>

lemma c_string_nth:
  assumes "c_string m a L" and "i < L"
  shows "m ! (a + i) \<noteq> 0"
proof -
  from assms have "i < length (take L (drop a m))" by (auto simp: c_string_def)
  then have "take L (drop a m) ! i \<in> set (take L (drop a m))" by (rule nth_mem)
  moreover from assms have "take L (drop a m) ! i = m ! (a + i)" by (simp add: c_string_def)
  ultimately show ?thesis using assms by (auto simp: c_string_def)
qed

lemma c_string_bound: "c_string m a L \<Longrightarrow> a + L < length m"
  by (simp add: c_string_def)

lemma c_string_end: "c_string m a L \<Longrightarrow> m ! (a + L) = 0"
  by (simp add: c_string_def)

lemma strlen_loop_c_string:
  assumes "c_string m a L" and "k \<le> L"
  shows "strlen_loop m (Ptr a) k = Inr L"
  using assms(2)
proof (induction "L - k" arbitrary: k)
  case 0
  then have "k = L" by simp
  then show ?case
    using c_string_bound [OF assms(1)] c_string_end [OF assms(1)]
    by (subst strlen_loop.simps) simp
next
  case (Suc d)
  then have "k < L" by simp
  then have "m ! (a + k) \<noteq> 0" by (rule c_string_nth [OF assms(1)])
  moreover have "a + k < length m" using c_string_bound [OF assms(1)] \<open>k < L\<close> by simp
  moreover have "strlen_loop m (Ptr a) (Suc k) = Inr L" using Suc by (intro Suc.hyps(1)) simp_all
  ultimately show ?case by (subst strlen_loop.simps) simp
qed

lemma string_length_loop_c_string:
  assumes "c_string m a L" and "k \<le> L"
  shows "string_length_loop m (Ptr a) k = Inr L"
  using assms(2)
proof (induction "L - k" arbitrary: k)
  case 0
  then have "k = L" by simp
  then show ?case
    using c_string_bound [OF assms(1)] c_string_end [OF assms(1)]
    by (subst string_length_loop.simps) simp
next
  case (Suc d)
  then have "k < L" by simp
  then have "m ! (a + k) \<noteq> 0" by (rule c_string_nth [OF assms(1)])
  moreover have "a + k < length m" using c_string_bound [OF assms(1)] \<open>k < L\<close> by simp
  moreover have "string_length_loop m (Ptr a) (Suc k) = Inr L"
    using Suc by (intro Suc.hyps(1)) simp_all
  ultimately show ?case by (subst string_length_loop.simps) simp
qed

lemma c_string_Suc:
  assumes "c_string m a (Suc L)"
  shows "c_string m (Suc a) L" and "m ! a \<noteq> 0" and "a < length m"
    and "take (Suc L) (drop a m) = m ! a # take L (drop (Suc a) m)"
proof -
  from assms have b: "a + Suc L < length m" by (rule c_string_bound)
  then show "a < length m" by simp
  then have d: "drop a m = m ! a # drop (Suc a) m" by (simp add: Cons_nth_drop_Suc)
  then show t: "take (Suc L) (drop a m) = m ! a # take L (drop (Suc a) m)" by simp
  from c_string_nth [OF assms, of 0] show "m ! a \<noteq> 0" by simp
  from assms t b show "c_string m (Suc a) L" by (simp add: c_string_def)
qed

lemma count_chars_loop_c_string:
  assumes "c_string m a L"
  shows "count_chars_loop m (Ptr a) target c = Inr (c + count_list (take L (drop a m)) target)"
  using assms
proof (induction L arbitrary: a c)
  case 0
  then show ?case
    using c_string_bound [OF 0] c_string_end [OF 0]
    by (subst count_chars_loop.simps) simp
next
  case (Suc L)
  note s = c_string_Suc [OF Suc.prems]
  have "count_chars_loop m (Ptr (Suc a)) target (if m ! a = target then Suc c else c) =
        Inr ((if m ! a = target then Suc c else c) + count_list (take L (drop (Suc a) m)) target)"
    by (rule Suc.IH [OF s(1)])
  then show ?case using s(2,3)
    by (subst count_chars_loop.simps) (simp add: s(4))
qed

text \<open>C7: \<open>string_length\<close> returns 0 for the null pointer and otherwise the number of
  bytes before the first terminator (0 for the empty string); \<open>count_chars\<close> makes the
  same scan, counting the bytes equal to \<open>target\<close>, but has no null guard: for the null
  pointer it does not return 0, it dereferences the pointer, which is a fault.\<close>

theorem string_length_null_guard:
  "string_length m Null = Inr 0
   \<and> (c_string m a L \<longrightarrow> string_length m (Ptr a) = Inr L)
   \<and> (a < length m \<and> m ! a = 0 \<longrightarrow> string_length m (Ptr a) = Inr 0)
   \<and> count_chars m Null target = Inl NullDeref
   \<and> (c_string m a L \<longrightarrow>
        count_chars m (Ptr a) target = Inr (count_list (take L (drop a m)) target))
   \<and> string_length m Null \<noteq> count_chars m Null target"
proof (intro conjI impI)
  show "string_length m Null = Inr 0" by (simp add: string_length_def)
  show "string_length m (Ptr a) = Inr L" if "c_string m a L"
    using string_length_loop_c_string [OF that, of 0] by (simp add: string_length_def)
  show "string_length m (Ptr a) = Inr 0" if "a < length m \<and> m ! a = 0"
    using that by (simp add: string_length_def string_length_loop.simps)
  show n: "count_chars m Null target = Inl NullDeref"
    by (simp add: count_chars_def count_chars_loop.simps)
  show "count_chars m (Ptr a) target = Inr (count_list (take L (drop a m)) target)"
    if "c_string m a L"
    using count_chars_loop_c_string [OF that, of target 0] by (simp add: count_chars_def)
  show "string_length m Null \<noteq> count_chars m Null target"
    by (simp add: n string_length_def)
qed

text \<open>\<^verbatim>\<open>"banana"\<close> has length 6 and three \<^verbatim>\<open>'a'\<close> (97); the empty string has length 0.\<close>

theorem string_length_null_guard_witness:
  "c_string [98, 97, 110, 97, 110, 97, 0, 5] 0 6
   \<and> string_length [98, 97, 110, 97, 110, 97, 0, 5] (Ptr 0) = Inr 6
   \<and> count_chars [98, 97, 110, 97, 110, 97, 0, 5] (Ptr 0) 97 = Inr 3
   \<and> string_length [0, 5] (Ptr 0) = Inr 0
   \<and> string_length [0, 5] Null = Inr 0
   \<and> count_chars [0, 5] Null 97 = Inl NullDeref"
proof -
  note t = string_length_null_guard [of "[98, 97, 110, 97, 110, 97, 0, 5]" 0 6 97]
  note e = string_length_null_guard [of "[0, 5]" 0 0 97]
  have c: "c_string [98, 97, 110, 97, 110, 97, 0, 5] 0 6" by (simp add: c_string_def)
  from t c e show ?thesis by simp
qed


subsection \<open>Memories cell by cell\<close>

text \<open>The loops that write are followed through a cell-by-cell description of the
  memory, \<open>map f [0..<length m]\<close>; these lemmas compare such descriptions.\<close>

lemma map_upt_eqI:
  assumes "length m' = length m" and "\<And>j. j < length m \<Longrightarrow> f j = g j"
  shows "map f [0..<length m'] = map g [0..<length m]"
  using assms by simp

lemma map_upt_idI:
  assumes "length xs = length m" and "\<And>j. j < length m \<Longrightarrow> f j = xs ! j"
  shows "map f [0..<length m] = xs"
  using assms by (intro nth_equalityI) simp_all

lemma nth_append3:
  assumes "length xs = a" and "length ys = n"
  shows "(xs @ ys @ zs) ! j =
         (if j < a then xs ! j else if j < a + n then ys ! (j - a) else zs ! (j - (a + n)))"
  using assms by (auto simp: nth_append)

subsection \<open>reverse_string\<close>

text \<open>After the iterations \<open>i, i + 1, ...\<close> of the swap loop, the cells from \<open>a + i\<close> up
  to \<open>a + len - 1 - i\<close> are mirrored and the others are as before.\<close>

lemma reverse_string_loop_map:
  assumes "a + len \<le> length m"
  shows "reverse_string_loop m (Ptr a) len i =
         Inr (map (\<lambda>j. if a + i \<le> j \<and> j + i < a + len then m ! (a + a + len - 1 - j) else m ! j)
                [0..<length m])"
  using assms
proof (induction m "Ptr a" len i rule: reverse_string_loop.induct)
  case (1 m len i)
  show ?case
  proof (cases "i < len div 2")
    case False
    then have len: "len \<le> 2 * i + 1" by linarith
    have "map (\<lambda>j. if a + i \<le> j \<and> j + i < a + len then m ! (a + a + len - 1 - j) else m ! j)
            [0..<length m] = m"
    proof (rule map_upt_idI)
      fix j assume j: "j < length m"
      have "a + a + len - 1 - j = j" if "a + i \<le> j" and "j + i < a + len"
        using that len by linarith
      then show "(if a + i \<le> j \<and> j + i < a + len then m ! (a + a + len - 1 - j) else m ! j) = m ! j"
        by simp
    qed simp
    with False show ?thesis by (subst reverse_string_loop.simps) simp
  next
    case True
    then have i2: "2 * i + 1 < len" by linarith
    define k where "k = len - 1 - i"
    define m2 where "m2 = m[a + i := m ! (a + k), a + k := m ! (a + i)]"
    from i2 1(2) have v: "a + i < length m" "a + k < length m" "a + i \<noteq> a + k"
      by (simp_all add: k_def)
    have len2: "length m2 = length m" by (simp add: m2_def)
    have "reverse_string_loop m2 (Ptr a) len (Suc i) =
          Inr (map (\<lambda>j. if a + Suc i \<le> j \<and> j + Suc i < a + len
                          then m2 ! (a + a + len - 1 - j) else m2 ! j) [0..<length m2])"
      unfolding m2_def k_def using True v 1(2) by (intro 1(1)) (auto simp: k_def)
    also have "map (\<lambda>j. if a + Suc i \<le> j \<and> j + Suc i < a + len
                          then m2 ! (a + a + len - 1 - j) else m2 ! j) [0..<length m2] =
        map (\<lambda>j. if a + i \<le> j \<and> j + i < a + len then m ! (a + a + len - 1 - j) else m ! j)
            [0..<length m]"
    proof (rule map_upt_eqI [OF len2])
      fix j assume j: "j < length m"
      consider (lo) "j = a + i" | (hi) "j = a + k" | (mid) "a + Suc i \<le> j" "j + Suc i < a + len"
        | (out) "j < a + i \<or> a + len \<le> j + i"
        using i2 unfolding k_def by linarith
      then show "(if a + Suc i \<le> j \<and> j + Suc i < a + len
                  then m2 ! (a + a + len - 1 - j) else m2 ! j) =
                 (if a + i \<le> j \<and> j + i < a + len then m ! (a + a + len - 1 - j) else m ! j)"
      proof cases
        case lo
        have "a + a + len - 1 - j = a + k" using lo i2 by (simp add: k_def)
        moreover have "\<not> a + Suc i \<le> j" "a + i \<le> j" "j + i < a + len" using lo i2 by simp_all
        moreover have "m2 ! j = m ! (a + k)" using lo v by (simp add: m2_def nth_list_update)
        ultimately show ?thesis by simp
      next
        case hi
        have "a + a + len - 1 - j = a + i" using hi i2 by (simp add: k_def)
        moreover have "\<not> j + Suc i < a + len" "a + i \<le> j" "j + i < a + len"
          using hi i2 by (simp_all add: k_def)
        moreover have "m2 ! j = m ! (a + i)" using hi v by (simp add: m2_def nth_list_update)
        ultimately show ?thesis by simp
      next
        case mid
        have "a + a + len - 1 - j \<noteq> a + i" "a + a + len - 1 - j \<noteq> a + k"
          using mid i2 unfolding k_def by linarith+
        then have "m2 ! (a + a + len - 1 - j) = m ! (a + a + len - 1 - j)"
          by (simp add: m2_def nth_list_update)
        moreover have "a + i \<le> j" "j + i < a + len" using mid by simp_all
        ultimately show ?thesis using mid by simp
      next
        case out
        then have "j \<noteq> a + i" "j \<noteq> a + k" using i2 unfolding k_def by linarith+
        then have "m2 ! j = m ! j" by (simp add: m2_def nth_list_update)
        moreover have "\<not> (a + Suc i \<le> j \<and> j + Suc i < a + len)" "\<not> (a + i \<le> j \<and> j + i < a + len)"
          using out by linarith+
        ultimately show ?thesis by auto
      qed
    qed
    finally have "reverse_string_loop m2 (Ptr a) len (Suc i) =
        Inr (map (\<lambda>j. if a + i \<le> j \<and> j + i < a + len then m ! (a + a + len - 1 - j) else m ! j)
            [0..<length m])" .
    moreover have "reverse_string_loop m (Ptr a) len i = reverse_string_loop m2 (Ptr a) len (Suc i)"
      using True v by (subst reverse_string_loop.simps) (simp add: m2_def k_def)
    ultimately show ?thesis by simp
  qed
qed

lemma reverse_region:
  assumes "a + len \<le> length m"
  shows "map (\<lambda>j. if a \<le> j \<and> j < a + len then m ! (a + a + len - 1 - j) else m ! j) [0..<length m] =
         take a m @ rev (take len (drop a m)) @ drop (a + len) m"
proof (rule map_upt_idI)
  show "length (take a m @ rev (take len (drop a m)) @ drop (a + len) m) = length m"
    using assms by simp
next
  fix j assume j: "j < length m"
  have l: "length (take a m) = a" "length (rev (take len (drop a m))) = len"
    using assms by simp_all
  note n = nth_append3 [OF l, of "drop (a + len) m" j]
  consider (pre) "j < a" | (mid) "a \<le> j" "j < a + len" | (post) "a + len \<le> j" by linarith
  then show "(if a \<le> j \<and> j < a + len then m ! (a + a + len - 1 - j) else m ! j) =
             (take a m @ rev (take len (drop a m)) @ drop (a + len) m) ! j"
  proof cases
    case pre
    then show ?thesis by (simp add: n)
  next
    case mid
    have "rev (take len (drop a m)) ! (j - a) = take len (drop a m) ! (len - Suc (j - a))"
      using mid assms by (subst rev_nth) simp_all
    also have "\<dots> = m ! (a + (len - Suc (j - a)))"
      using mid assms by simp
    also have "a + (len - Suc (j - a)) = a + a + len - 1 - j" using mid by linarith
    finally show ?thesis using mid by (simp add: n)
  next
    case post
    have "drop (a + len) m ! (j - (a + len)) = m ! j" using post j by simp
    then show ?thesis using post by (simp add: n)
  qed
qed

lemma reverse_string_result:
  assumes "c_string m a L"
  shows "reverse_string m (Ptr a) = Inr (take a m @ rev (take L (drop a m)) @ drop (a + L) m)"
proof -
  from assms have b: "a + L \<le> length m" by (simp add: c_string_def)
  have "strlen m (Ptr a) = Inr L"
    using strlen_loop_c_string [OF assms, of 0] by (simp add: strlen_def)
  then have "reverse_string m (Ptr a) = reverse_string_loop m (Ptr a) L 0"
    by (simp add: reverse_string_def)
  also have "\<dots> = Inr (map (\<lambda>j. if a \<le> j \<and> j < a + L then m ! (a + a + L - 1 - j) else m ! j)
                [0..<length m])"
    using reverse_string_loop_map [OF b, of 0] by simp
  finally show ?thesis by (simp add: reverse_region [OF b])
qed

lemma reversed_c_string:
  assumes "c_string m a L"
  shows "c_string (take a m @ rev (take L (drop a m)) @ drop (a + L) m) a L"
proof -
  let ?m' = "take a m @ rev (take L (drop a m)) @ drop (a + L) m"
  from assms have b: "a + L < length m" by (simp add: c_string_def)
  then have l: "length (take a m) = a" "length (rev (take L (drop a m))) = L" by simp_all
  have d: "drop a ?m' = rev (take L (drop a m)) @ drop (a + L) m" using l by simp
  have t: "take L (drop a ?m') = rev (take L (drop a m))" using l by (simp add: d)
  have "?m' ! (a + L) = drop (a + L) m ! 0" by (simp add: nth_append3 [OF l])
  also have "\<dots> = m ! (a + L)" using b by simp
  finally have e: "?m' ! (a + L) = 0" using assms by (simp add: c_string_def)
  have "length ?m' = length m" using b by simp
  with b t e assms show ?thesis by (simp add: c_string_def)
qed

lemma reversed_twice:
  assumes "a + L \<le> length m"
  shows "take a (take a m @ rev (take L (drop a m)) @ drop (a + L) m)
         @ rev (take L (drop a (take a m @ rev (take L (drop a m)) @ drop (a + L) m)))
         @ drop (a + L) (take a m @ rev (take L (drop a m)) @ drop (a + L) m) = m"
proof -
  let ?m' = "take a m @ rev (take L (drop a m)) @ drop (a + L) m"
  from assms have l: "length (take a m) = a" "length (rev (take L (drop a m))) = L" by simp_all
  have 1: "take a ?m' = take a m" using l by simp
  have d: "drop a ?m' = rev (take L (drop a m)) @ drop (a + L) m" using l by simp
  have 2: "take L (drop a ?m') = rev (take L (drop a m))" using l by (simp add: d)
  have "drop (a + L) ?m' = drop L (drop a ?m')" by (simp only: drop_drop add.commute)
  also have "\<dots> = drop (a + L) m" using l by (simp add: d)
  finally have 3: "drop (a + L) ?m' = drop (a + L) m" .
  have "drop (a + L) m = drop L (drop a m)" by (simp only: drop_drop add.commute)
  then have "take a m @ take L (drop a m) @ drop (a + L) m = m" by (simp only: append_take_drop_id)
  then show ?thesis by (simp only: 1 2 3 rev_rev_ident)
qed


text \<open>C8: for a null-terminated string of length \<open>L\<close> at \<open>a\<close>, \<open>reverse_string\<close> returns
  the memory in which the \<open>L\<close> bytes of the string are in reverse order (the byte at
  index \<open>i\<close> is the old byte at index \<open>L - 1 - i\<close>), the terminator and every byte
  outside the string are unchanged; a string of length 0 or 1 is left as it is.\<close>

theorem reverse_string_in_place:
  assumes "c_string m a L"
  shows "\<exists>m'. reverse_string m (Ptr a) = Inr m'
           \<and> m' = take a m @ rev (take L (drop a m)) @ drop (a + L) m
           \<and> length m' = length m
           \<and> (\<forall>i<L. m' ! (a + i) = m ! (a + (L - 1 - i)))
           \<and> m' ! (a + L) = 0
           \<and> (\<forall>j<length m. j < a \<or> a + L \<le> j \<longrightarrow> m' ! j = m ! j)
           \<and> (L \<le> 1 \<longrightarrow> m' = m)"
proof -
  let ?m' = "take a m @ rev (take L (drop a m)) @ drop (a + L) m"
  from assms have b: "a + L < length m" by (simp add: c_string_def)
  then have l: "length (take a m) = a" "length (rev (take L (drop a m))) = L" by simp_all
  note n = nth_append3 [OF l, of "drop (a + L) m"]
  have r1: "reverse_string m (Ptr a) = Inr ?m'" by (rule reverse_string_result [OF assms])
  have r2: "?m' = ?m'" by (rule refl)
  have r3: "length ?m' = length m" using b by simp
  have r4: "\<forall>i<L. ?m' ! (a + i) = m ! (a + (L - 1 - i))"
  proof (intro allI impI)
    fix i assume i: "i < L"
    then have "?m' ! (a + i) = rev (take L (drop a m)) ! i" by (simp add: n)
    also have "\<dots> = take L (drop a m) ! (L - Suc i)" using i b by (subst rev_nth) simp_all
    also have "\<dots> = m ! (a + (L - 1 - i))" using i b by simp
    finally show "?m' ! (a + i) = m ! (a + (L - 1 - i))" .
  qed
  have r5: "?m' ! (a + L) = 0"
    using c_string_end [OF reversed_c_string [OF assms]] .
  have r6: "\<forall>j<length m. j < a \<or> a + L \<le> j \<longrightarrow> ?m' ! j = m ! j"
    using b by (auto simp: n)
  have r7: "L \<le> 1 \<longrightarrow> ?m' = m"
  proof
    assume "L \<le> 1"
    then have "length (take L (drop a m)) \<le> 1" by simp
    then have "rev (take L (drop a m)) = take L (drop a m)"
      by (cases "take L (drop a m)") auto
    moreover have "drop (a + L) m = drop L (drop a m)" by (simp only: drop_drop add.commute)
    ultimately show "?m' = m" by (simp only: append_take_drop_id)
  qed
  show ?thesis
    by (rule exI [where x = ?m'], intro conjI) (fact r1 r2 r3 r4 r5 r6 r7)+
qed

text \<open>\<^verbatim>\<open>"ab"\<close> becomes \<^verbatim>\<open>"ba"\<close>, \<^verbatim>\<open>"abc"\<close> (between two other bytes) becomes
  \<^verbatim>\<open>"cba"\<close>, \<^verbatim>\<open>""\<close> and \<^verbatim>\<open>"a"\<close> stay.\<close>

theorem reverse_string_in_place_witness:
  "c_string [97, 98, 0] 0 2 \<and> reverse_string [97, 98, 0] (Ptr 0) = Inr [98, 97, 0]
   \<and> c_string [7, 97, 98, 99, 0, 9] 1 3
   \<and> reverse_string [7, 97, 98, 99, 0, 9] (Ptr 1) = Inr [7, 99, 98, 97, 0, 9]
   \<and> c_string [0, 9] 0 0 \<and> reverse_string [0, 9] (Ptr 0) = Inr [0, 9]
   \<and> c_string [97, 0] 0 1 \<and> reverse_string [97, 0] (Ptr 0) = Inr [97, 0]"
proof -
  have c1: "c_string [97, 98, 0] 0 2" by (simp add: c_string_def)
  from reverse_string_in_place [OF c1]
  have r1: "reverse_string [97, 98, 0] (Ptr 0) = Inr [98, 97, 0]"
    by (elim exE conjE) simp
  have c2: "c_string [7, 97, 98, 99, 0, 9] 1 3" by (simp add: c_string_def)
  from reverse_string_in_place [OF c2]
  have r2: "reverse_string [7, 97, 98, 99, 0, 9] (Ptr 1) = Inr [7, 99, 98, 97, 0, 9]"
    by (elim exE conjE) simp
  have c3: "c_string [0, 9] 0 0" by (simp add: c_string_def)
  from reverse_string_in_place [OF c3]
  have r3: "reverse_string [0, 9] (Ptr 0) = Inr [0, 9]"
    by (elim exE conjE) simp
  have c4: "c_string [97, 0] 0 1" by (simp add: c_string_def)
  from reverse_string_in_place [OF c4]
  have r4: "reverse_string [97, 0] (Ptr 0) = Inr [97, 0]"
    by (elim exE conjE) simp
  from c1 r1 c2 r2 c3 r3 c4 r4 show ?thesis by simp
qed

text \<open>C10: \<open>reverse_string\<close> is an involution: on a null-terminated string, the first
  call returns a memory that holds a string of the same length at the same address, and
  a second call on that memory returns the original memory, byte for byte.\<close>

theorem reverse_string_involution:
  assumes "c_string m a L"
  shows "\<exists>m'. reverse_string m (Ptr a) = Inr m'
           \<and> strlen m (Ptr a) = Inr L
           \<and> strlen m' (Ptr a) = Inr L
           \<and> c_string m' a L
           \<and> reverse_string m' (Ptr a) = Inr m"
proof -
  let ?m' = "take a m @ rev (take L (drop a m)) @ drop (a + L) m"
  from assms have b: "a + L \<le> length m" by (simp add: c_string_def)
  have r1: "reverse_string m (Ptr a) = Inr ?m'" by (rule reverse_string_result [OF assms])
  have r2: "strlen m (Ptr a) = Inr L"
    using strlen_loop_c_string [OF assms, of 0] by (simp add: strlen_def)
  have r4: "c_string ?m' a L" by (rule reversed_c_string [OF assms])
  have r3: "strlen ?m' (Ptr a) = Inr L"
    using strlen_loop_c_string [OF r4, of 0] by (simp add: strlen_def)
  have r5: "reverse_string ?m' (Ptr a) = Inr m"
    by (simp only: reverse_string_result [OF r4] reversed_twice [OF b])
  show ?thesis
    by (rule exI [where x = ?m'], intro conjI) (fact r1 r2 r3 r4 r5)+
qed

text \<open>\<^verbatim>\<open>"abcd"\<close> to \<^verbatim>\<open>"dcba"\<close> and back.\<close>

theorem reverse_string_involution_witness:
  "c_string [7, 97, 98, 99, 100, 0, 9] 1 4
   \<and> reverse_string [7, 97, 98, 99, 100, 0, 9] (Ptr 1) = Inr [7, 100, 99, 98, 97, 0, 9]
   \<and> reverse_string [7, 100, 99, 98, 97, 0, 9] (Ptr 1) = Inr [7, 97, 98, 99, 100, 0, 9]"
proof -
  have c: "c_string [7, 97, 98, 99, 100, 0, 9] 1 4" by (simp add: c_string_def)
  have r: "reverse_string [7, 97, 98, 99, 100, 0, 9] (Ptr 1) = Inr [7, 100, 99, 98, 97, 0, 9]"
    by code_simp
  from reverse_string_involution [OF c] r
  have "reverse_string [7, 100, 99, 98, 97, 0, 9] (Ptr 1) = Inr [7, 97, 98, 99, 100, 0, 9]"
    by (elim exE conjE) simp
  with c r show ?thesis by simp
qed


subsection \<open>string_copy: the bounded copy\<close>

text \<open>Whatever the source pointer and however the two regions lie, a run of the loop
  from \<open>i\<close> that ends at \<open>k\<close> has written only the cells \<open>dest[i..k-1]\<close>, and
  \<open>k \<le> max_len - 1\<close>.\<close>

lemma string_copy_loop_frame:
  assumes "string_copy_loop m (Ptr d) src max_len i = Inr (m', k)"
  shows "i \<le> k \<and> (i \<le> max_len - 1 \<longrightarrow> k \<le> max_len - 1) \<and> length m' = length m
         \<and> (\<forall>j. j < d + i \<or> d + k \<le> j \<longrightarrow> m' ! j = m ! j)"
  using assms
proof (induction m "Ptr d" src max_len i rule: string_copy_loop.induct)
  case (1 m src max_len i)
  show ?case
  proof (cases "i < max_len - 1")
    case False
    with 1(2) have "m' = m" "k = i"
      by (simp_all add: string_copy_loop.simps [of m "Ptr d" src max_len i])
    then show ?thesis by simp
  next
    case True
    with 1(2) obtain c where c: "load m src i = Inr c"
      by (cases "load m src i") (simp_all add: string_copy_loop.simps [of m "Ptr d" src max_len i])
    show ?thesis
    proof (cases "c = 0")
      case True
      with \<open>i < max_len - 1\<close> c 1(2) have "m' = m" "k = i"
        by (simp_all add: string_copy_loop.simps [of m "Ptr d" src max_len i])
      then show ?thesis by simp
    next
      case False
      with \<open>i < max_len - 1\<close> c 1(2) have v: "d + i < length m"
        and r: "string_copy_loop (m[d + i := c]) (Ptr d) src max_len (Suc i) = Inr (m', k)"
        by (simp_all add: string_copy_loop.simps [of m "Ptr d" src max_len i] split: if_splits)
      have s: "store m (Ptr d) i c = Inr (m[d + i := c])" using v by simp
      from 1(1) [OF \<open>i < max_len - 1\<close> c False s r]
      have ih: "Suc i \<le> k" "Suc i \<le> max_len - 1 \<longrightarrow> k \<le> max_len - 1" "length m' = length m"
        "\<forall>j. j < d + Suc i \<or> d + k \<le> j \<longrightarrow> m' ! j = m[d + i := c] ! j"
        by simp_all
      have "m' ! j = m ! j" if "j < d + i \<or> d + k \<le> j" for j
      proof -
        from that ih(1) have n: "j \<noteq> d + i" and "j < d + Suc i \<or> d + k \<le> j" by linarith+
        with ih(4) have "m' ! j = m[d + i := c] ! j" by blast
        also have "\<dots> = m ! j" using n by simp
        finally show ?thesis .
      qed
      with ih \<open>i < max_len - 1\<close> show ?thesis by simp
    qed
  qed
qed

lemma string_copy_frame:
  assumes "0 < max_len" and "string_copy m (Ptr d) (Ptr s) max_len = Inr m'"
  shows "\<exists>k<max_len. d + k < length m \<and> length m' = length m \<and> m' ! (d + k) = 0
           \<and> (\<forall>j<length m. j < d \<or> d + k < j \<longrightarrow> m' ! j = m ! j)"
proof -
  from assms obtain m1 k where l: "string_copy_loop m (Ptr d) (Ptr s) max_len 0 = Inr (m1, k)"
    and st: "store m1 (Ptr d) k 0 = Inr m'"
    by (auto simp: string_copy_def split: sum.splits prod.splits)
  from string_copy_loop_frame [OF l]
  have f: "k \<le> max_len - 1" "length m1 = length m" "\<forall>j. j < d \<or> d + k \<le> j \<longrightarrow> m1 ! j = m ! j"
    by simp_all
  from st have v: "d + k < length m1" and m': "m' = m1[d + k := 0]"
    by (simp_all split: if_splits)
  have "k < max_len" using f(1) assms(1) by simp
  moreover have "d + k < length m" using v f(2) by simp
  moreover have "length m' = length m" using m' f(2) by simp
  moreover have "m' ! (d + k) = 0" using m' v by simp
  moreover have "\<forall>j<length m. j < d \<or> d + k < j \<longrightarrow> m' ! j = m ! j"
    using m' f(3) by (auto simp: nth_list_update)
  ultimately show ?thesis by blast
qed

text \<open>When the destination starts at or before the source, or after the bytes of the
  source that are read, no read sees a byte the loop has written: the memory after \<open>i\<close>
  iterations is the initial one with \<open>dest[0..i-1]\<close> replaced by \<open>src[0..i-1]\<close>, and the
  loop ends at \<open>n = min (max_len - 1) L\<close>.\<close>

lemma string_copy_loop_disjoint:
  assumes "c_string m0 s L" and "n = min (max_len - 1) L" and "d + n < length m0"
    and "d \<le> s \<or> s + n < d" and "i \<le> n"
  shows "string_copy_loop
           (map (\<lambda>j. if d \<le> j \<and> j < d + i then m0 ! (s + (j - d)) else m0 ! j) [0..<length m0])
           (Ptr d) (Ptr s) max_len i =
         Inr (map (\<lambda>j. if d \<le> j \<and> j < d + n then m0 ! (s + (j - d)) else m0 ! j) [0..<length m0], n)"
  using assms(5)
proof (induction "n - i" arbitrary: i)
  case 0
  then have i: "i = n" by simp
  define mi where "mi = map (\<lambda>j. if d \<le> j \<and> j < d + n then m0 ! (s + (j - d)) else m0 ! j) [0..<length m0]"
  have b: "s + L < length m0" by (rule c_string_bound [OF assms(1)])
  show ?case
  proof (cases "n < max_len - 1")
    case False
    then show ?thesis unfolding i by (subst string_copy_loop.simps) simp
  next
    case True
    with assms(2) have nL: "n = L" by simp
    have "mi ! (s + n) = m0 ! (s + n)" using assms(4) b nL by (auto simp: mi_def)
    also have "\<dots> = 0" using c_string_end [OF assms(1)] nL by simp
    finally have "load mi (Ptr s) n = Inr 0" using b nL by (simp add: mi_def)
    with True show ?thesis unfolding i mi_def [symmetric]
      by (subst string_copy_loop.simps) simp
  qed
next
  case (Suc k)
  then have i: "i < n" by simp
  define mi where "mi = map (\<lambda>j. if d \<le> j \<and> j < d + i then m0 ! (s + (j - d)) else m0 ! j) [0..<length m0]"
  define mi' where "mi' = map (\<lambda>j. if d \<le> j \<and> j < d + Suc i then m0 ! (s + (j - d)) else m0 ! j) [0..<length m0]"
  have b: "s + L < length m0" by (rule c_string_bound [OF assms(1)])
  from i assms(2) have iL: "i < L" and im: "i < max_len - 1" by simp_all
  have "mi ! (s + i) = m0 ! (s + i)" using assms(4) b i iL by (auto simp: mi_def)
  then have ld: "load mi (Ptr s) i = Inr (m0 ! (s + i))" using b iL by (simp add: mi_def)
  have nz: "m0 ! (s + i) \<noteq> 0" by (rule c_string_nth [OF assms(1) iL])
  have v: "d + i < length mi" using assms(3) i by (simp add: mi_def)
  have "mi[d + i := m0 ! (s + i)] = mi'"
    using v by (intro nth_equalityI) (auto simp: mi_def mi'_def nth_list_update)
  then have st: "store mi (Ptr d) i (m0 ! (s + i)) = Inr mi'" using v by simp
  have "string_copy_loop mi' (Ptr d) (Ptr s) max_len (Suc i) =
        Inr (map (\<lambda>j. if d \<le> j \<and> j < d + n then m0 ! (s + (j - d)) else m0 ! j) [0..<length m0], n)"
    unfolding mi'_def using Suc i by (intro Suc.hyps(1)) simp_all
  then show ?case unfolding mi_def [symmetric] using im ld nz st
    by (subst string_copy_loop.simps) simp
qed

lemma copy_region:
  assumes "d + n < length m" and "s + n \<le> length m"
  shows "(map (\<lambda>j. if d \<le> j \<and> j < d + n then m ! (s + (j - d)) else m ! j) [0..<length m])[d + n := 0] =
         take d m @ take n (drop s m) @ 0 # drop (Suc (d + n)) m"
proof (intro nth_equalityI)
  show "length ((map (\<lambda>j. if d \<le> j \<and> j < d + n then m ! (s + (j - d)) else m ! j)
          [0..<length m])[d + n := 0]) = length (take d m @ take n (drop s m) @ 0 # drop (Suc (d + n)) m)"
    using assms by simp
next
  fix j assume "j < length ((map (\<lambda>j. if d \<le> j \<and> j < d + n then m ! (s + (j - d)) else m ! j)
          [0..<length m])[d + n := 0])"
  then have j: "j < length m" by simp
  have l: "length (take d m) = d" "length (take n (drop s m)) = n" using assms by simp_all
  note a = nth_append3 [OF l, of "0 # drop (Suc (d + n)) m" j]
  consider (pre) "j < d" | (mid) "d \<le> j" "j < d + n" | (z) "j = d + n" | (post) "d + n < j"
    by linarith
  then have "(take d m @ take n (drop s m) @ 0 # drop (Suc (d + n)) m) ! j =
        (if j = d + n then 0 else if d \<le> j \<and> j < d + n then m ! (s + (j - d)) else m ! j)"
  proof cases
    case pre
    then show ?thesis unfolding a using j by simp
  next
    case mid
    then show ?thesis unfolding a using assms by simp
  next
    case z
    then show ?thesis unfolding a by simp
  next
    case post
    then obtain q where q: "j = d + n + Suc q" using less_imp_Suc_add by (metis add_Suc_right)
    then have "(0 # drop (Suc (d + n)) m) ! (j - (d + n)) = m ! j" using j by simp
    then show ?thesis unfolding a using post by simp
  qed
  then show "(map (\<lambda>j. if d \<le> j \<and> j < d + n then m ! (s + (j - d)) else m ! j)
          [0..<length m])[d + n := 0] ! j = (take d m @ take n (drop s m) @ 0 # drop (Suc (d + n)) m) ! j"
    using j by (simp add: nth_list_update)
qed

lemma string_copy_disjoint:
  assumes "0 < max_len" and "c_string m s L" and "n = min (max_len - 1) L"
    and "d + n < length m" and "d \<le> s \<or> s + n < d"
  shows "string_copy m (Ptr d) (Ptr s) max_len =
         Inr (take d m @ take n (drop s m) @ 0 # drop (Suc (d + n)) m)"
proof -
  define mn where "mn = map (\<lambda>j. if d \<le> j \<and> j < d + n then m ! (s + (j - d)) else m ! j) [0..<length m]"
  have "map (\<lambda>j. if d \<le> j \<and> j < d + 0 then m ! (s + (j - d)) else m ! j) [0..<length m] = m"
    by (intro nth_equalityI) auto
  with string_copy_loop_disjoint [OF assms(2-5), of 0]
  have l: "string_copy_loop m (Ptr d) (Ptr s) max_len 0 = Inr (mn, n)" by (simp add: mn_def)
  have b: "s + n \<le> length m" using c_string_bound [OF assms(2)] assms(3) by simp
  have "store mn (Ptr d) n 0 = Inr (mn[d + n := 0])" using assms(4) by (simp add: mn_def)
  also have "mn[d + n := 0] = take d m @ take n (drop s m) @ 0 # drop (Suc (d + n)) m"
    unfolding mn_def by (rule copy_region [OF assms(4) b])
  finally show ?thesis using assms(1) l by (simp add: string_copy_def)
qed

text \<open>When the destination starts inside the source string, \<open>p = dest - src\<close> bytes
  after its start, the loop reads back what it has written: the byte stored at
  \<open>dest[i]\<close> is the initial \<open>src[i mod p]\<close>, never the terminator, and the loop runs up to
  \<open>max_len - 1\<close>.\<close>

lemma string_copy_loop_overlap:
  assumes "c_string m0 s L" and "s < d" and "d \<le> s + L" and "d + (max_len - 1) < length m0"
    and "i \<le> max_len - 1"
  shows "string_copy_loop
           (map (\<lambda>j. if d \<le> j \<and> j < d + i then m0 ! (s + (j - d) mod (d - s)) else m0 ! j)
              [0..<length m0])
           (Ptr d) (Ptr s) max_len i =
         Inr (map (\<lambda>j. if d \<le> j \<and> j < d + (max_len - 1) then m0 ! (s + (j - d) mod (d - s))
                        else m0 ! j) [0..<length m0], max_len - 1)"
  using assms(5)
proof (induction "max_len - 1 - i" arbitrary: i)
  case 0
  then have i: "i = max_len - 1" by simp
  show ?case unfolding i by (subst string_copy_loop.simps) simp
next
  case (Suc k)
  then have im: "i < max_len - 1" by simp
  define p where "p = d - s"
  have p: "0 < p" "p \<le> L" "d = s + p" using assms(2,3) by (simp_all add: p_def)
  define mi where "mi = map (\<lambda>j. if d \<le> j \<and> j < d + i then m0 ! (s + (j - d) mod p) else m0 ! j)
      [0..<length m0]"
  define mi' where "mi' = map (\<lambda>j. if d \<le> j \<and> j < d + Suc i then m0 ! (s + (j - d) mod p) else m0 ! j)
      [0..<length m0]"
  have sv: "s + i < length m0" using assms(2,4) im by simp
  have rd: "mi ! (s + i) = m0 ! (s + i mod p)"
  proof (cases "i < p")
    case True
    then have "\<not> d \<le> s + i" using p(3) by simp
    then show ?thesis using sv True by (simp add: mi_def)
  next
    case False
    then have ge: "p \<le> i" by simp
    then have "d \<le> s + i" "s + i < d + i" "s + i - d = i - p" using p by simp_all
    then have "mi ! (s + i) = m0 ! (s + (i - p) mod p)" using sv by (simp add: mi_def)
    also have "(i - p) mod p = i mod p" using ge by (simp add: le_mod_geq)
    finally show ?thesis .
  qed
  have ld: "load mi (Ptr s) i = Inr (m0 ! (s + i mod p))" using sv rd by (simp add: mi_def)
  have "i mod p < L" using p(1,2) by (meson mod_less_divisor less_le_trans)
  then have nz: "m0 ! (s + i mod p) \<noteq> 0" by (rule c_string_nth [OF assms(1)])
  have v: "d + i < length mi" using assms(4) im by (simp add: mi_def)
  have "mi[d + i := m0 ! (s + i mod p)] = mi'"
    using v by (intro nth_equalityI) (auto simp: mi_def mi'_def nth_list_update)
  then have st: "store mi (Ptr d) i (m0 ! (s + i mod p)) = Inr mi'" using v by simp
  have "string_copy_loop mi' (Ptr d) (Ptr s) max_len (Suc i) =
        Inr (map (\<lambda>j. if d \<le> j \<and> j < d + (max_len - 1) then m0 ! (s + (j - d) mod (d - s))
                        else m0 ! j) [0..<length m0], max_len - 1)"
    unfolding mi'_def p_def using Suc im by (intro Suc.hyps(1)) simp_all
  then show ?case unfolding mi_def [symmetric, unfolded p_def] using im ld nz st
    by (subst string_copy_loop.simps) simp
qed

lemma overlap_region:
  assumes "d + k < length m"
  shows "(map (\<lambda>j. if d \<le> j \<and> j < d + k then m ! (s + (j - d) mod p) else m ! j)
            [0..<length m])[d + k := 0] =
         take d m @ map (\<lambda>i. m ! (s + i mod p)) [0..<k] @ 0 # drop (Suc (d + k)) m"
proof (intro nth_equalityI)
  show "length ((map (\<lambda>j. if d \<le> j \<and> j < d + k then m ! (s + (j - d) mod p) else m ! j)
          [0..<length m])[d + k := 0]) =
        length (take d m @ map (\<lambda>i. m ! (s + i mod p)) [0..<k] @ 0 # drop (Suc (d + k)) m)"
    using assms by simp
next
  fix j assume "j < length ((map (\<lambda>j. if d \<le> j \<and> j < d + k then m ! (s + (j - d) mod p) else m ! j)
          [0..<length m])[d + k := 0])"
  then have j: "j < length m" by simp
  have l: "length (take d m) = d" "length (map (\<lambda>i. m ! (s + i mod p)) [0..<k]) = k"
    using assms by simp_all
  note a = nth_append3 [OF l, of "0 # drop (Suc (d + k)) m" j]
  consider (pre) "j < d" | (mid) "d \<le> j" "j < d + k" | (z) "j = d + k" | (post) "d + k < j"
    by linarith
  then have "(take d m @ map (\<lambda>i. m ! (s + i mod p)) [0..<k] @ 0 # drop (Suc (d + k)) m) ! j =
        (if j = d + k then 0 else if d \<le> j \<and> j < d + k then m ! (s + (j - d) mod p) else m ! j)"
  proof cases
    case pre
    then show ?thesis unfolding a using j by simp
  next
    case mid
    then have "j - d < k" by simp
    then have "map (\<lambda>i. m ! (s + i mod p)) [0..<k] ! (j - d) = m ! (s + (j - d) mod p)" by simp
    then show ?thesis unfolding a using mid by simp
  next
    case z
    then show ?thesis unfolding a by simp
  next
    case post
    then obtain q where q: "j = d + k + Suc q" using less_imp_Suc_add by (metis add_Suc_right)
    then have "(0 # drop (Suc (d + k)) m) ! (j - (d + k)) = m ! j" using j by simp
    then show ?thesis unfolding a using post by simp
  qed
  then show "(map (\<lambda>j. if d \<le> j \<and> j < d + k then m ! (s + (j - d) mod p) else m ! j)
          [0..<length m])[d + k := 0] ! j =
        (take d m @ map (\<lambda>i. m ! (s + i mod p)) [0..<k] @ 0 # drop (Suc (d + k)) m) ! j"
    using j by (simp add: nth_list_update)
qed

lemma string_copy_overlap:
  assumes "0 < max_len" and "c_string m s L" and "s < d" and "d \<le> s + L"
    and "d + (max_len - 1) < length m"
  shows "string_copy m (Ptr d) (Ptr s) max_len =
         Inr (take d m @ map (\<lambda>i. m ! (s + i mod (d - s))) [0..<max_len - 1]
              @ 0 # drop (Suc (d + (max_len - 1))) m)"
proof -
  define mn where "mn = map (\<lambda>j. if d \<le> j \<and> j < d + (max_len - 1)
      then m ! (s + (j - d) mod (d - s)) else m ! j) [0..<length m]"
  have "map (\<lambda>j. if d \<le> j \<and> j < d + 0 then m ! (s + (j - d) mod (d - s)) else m ! j)
      [0..<length m] = m"
    by (intro nth_equalityI) auto
  with string_copy_loop_overlap [OF assms(2-5), of 0]
  have l: "string_copy_loop m (Ptr d) (Ptr s) max_len 0 = Inr (mn, max_len - 1)"
    by (simp add: mn_def)
  have "store mn (Ptr d) (max_len - 1) 0 = Inr (mn[d + (max_len - 1) := 0])"
    using assms(5) by (simp add: mn_def)
  also have "mn[d + (max_len - 1) := 0] =
      take d m @ map (\<lambda>i. m ! (s + i mod (d - s))) [0..<max_len - 1]
        @ 0 # drop (Suc (d + (max_len - 1))) m"
    unfolding mn_def by (rule overlap_region [OF assms(5)])
  finally show ?thesis using assms(1) l by (simp add: string_copy_def)
qed

text \<open>C1: for non-null \<open>dest\<close> and \<open>src\<close> and \<open>max_len > 0\<close>.

  First part, for any two pointers and any memory: when \<open>string_copy\<close> returns, it has
  written a terminator at some index \<open>k < max_len\<close> of \<open>dest\<close> and changed no cell outside
  \<open>dest[0..k]\<close>: at most \<open>max_len\<close> bytes are written, and every byte of \<open>dest\<close> at an
  index \<open>\<ge> max_len\<close> is unchanged.

  Second part, for a null-terminated \<open>src\<close> of length \<open>L\<close> and a destination that starts at
  or before \<open>src\<close> (in place included) or after the first \<open>n + 1\<close> bytes of \<open>src\<close>,
  \<open>n = min (max_len - 1) L\<close>, the cells \<open>dest[0..n]\<close> being in memory: \<open>string_copy\<close> returns;
  \<open>dest[0..n-1]\<close> holds the first \<open>n\<close> bytes of \<open>src\<close> (at most \<open>max_len - 1\<close>), \<open>dest[n]\<close> is
  the terminator, and every other cell, in particular every byte of \<open>dest\<close> beyond index
  \<open>n\<close>, is unchanged.

  Third part, for the remaining position, a destination that starts inside the source
  string (\<open>src < dest \<le> src + L\<close>), the cells \<open>dest[0..max_len-1]\<close> being in memory:
  \<open>string_copy\<close> returns; it has copied \<open>max_len - 1\<close> bytes, \<open>dest[i]\<close> holding the initial
  \<open>src[i mod (dest - src)]\<close>, then written the terminator at \<open>dest[max_len - 1]\<close>, and
  every other cell is unchanged.\<close>

theorem string_copy_bounded:
  assumes "0 < max_len"
  shows "(\<forall>m'. string_copy m (Ptr d) (Ptr s) max_len = Inr m' \<longrightarrow>
            (\<exists>k<max_len. d + k < length m \<and> length m' = length m \<and> m' ! (d + k) = 0
               \<and> (\<forall>j<length m. j < d \<or> d + k < j \<longrightarrow> m' ! j = m ! j)))
       \<and> (c_string m s L \<and> n = min (max_len - 1) L \<and> d + n < length m \<and> (d \<le> s \<or> s + n < d) \<longrightarrow>
            (\<exists>m'. string_copy m (Ptr d) (Ptr s) max_len = Inr m'
               \<and> m' = take d m @ take n (drop s m) @ 0 # drop (Suc (d + n)) m
               \<and> n \<le> max_len - 1
               \<and> Suc n \<le> max_len
               \<and> length m' = length m
               \<and> (\<forall>i<n. m' ! (d + i) = m ! (s + i))
               \<and> m' ! (d + n) = 0
               \<and> (\<forall>j<length m. j < d \<or> d + n < j \<longrightarrow> m' ! j = m ! j)))
       \<and> (c_string m s L \<and> s < d \<and> d \<le> s + L \<and> d + (max_len - 1) < length m \<longrightarrow>
            (\<exists>m'. string_copy m (Ptr d) (Ptr s) max_len = Inr m'
               \<and> m' = take d m @ map (\<lambda>i. m ! (s + i mod (d - s))) [0..<max_len - 1]
                        @ 0 # drop (Suc (d + (max_len - 1))) m
               \<and> length m' = length m
               \<and> (\<forall>i<max_len - 1. m' ! (d + i) = m ! (s + i mod (d - s)))
               \<and> m' ! (d + (max_len - 1)) = 0
               \<and> (\<forall>j<length m. j < d \<or> d + (max_len - 1) < j \<longrightarrow> m' ! j = m ! j)))"
proof (intro conjI allI impI)
  fix m' assume "string_copy m (Ptr d) (Ptr s) max_len = Inr m'"
  then show "\<exists>k<max_len. d + k < length m \<and> length m' = length m \<and> m' ! (d + k) = 0
               \<and> (\<forall>j<length m. j < d \<or> d + k < j \<longrightarrow> m' ! j = m ! j)"
    by (rule string_copy_frame [OF assms])
next
  assume h: "c_string m s L \<and> n = min (max_len - 1) L \<and> d + n < length m \<and> (d \<le> s \<or> s + n < d)"
  let ?m' = "take d m @ take n (drop s m) @ 0 # drop (Suc (d + n)) m"
  from h have c: "c_string m s L" and n: "n = min (max_len - 1) L" and v: "d + n < length m"
    and dj: "d \<le> s \<or> s + n < d" by blast+
  have b: "s + n \<le> length m" using c_string_bound [OF c] n by simp
  have l: "length (take d m) = d" "length (take n (drop s m)) = n" using v b by simp_all
  note a = nth_append3 [OF l, of "0 # drop (Suc (d + n)) m"]
  have r1: "string_copy m (Ptr d) (Ptr s) max_len = Inr ?m'"
    by (rule string_copy_disjoint [OF assms c n v dj])
  have r2: "?m' = ?m'" by (rule refl)
  have r3: "n \<le> max_len - 1" using n by simp
  have r4: "Suc n \<le> max_len" using n assms by simp
  have r5: "length ?m' = length m" using v b by simp
  have r6: "\<forall>i<n. ?m' ! (d + i) = m ! (s + i)" using b by (simp add: a)
  have r7: "?m' ! (d + n) = 0" by (simp add: a)
  have r8: "\<forall>j<length m. j < d \<or> d + n < j \<longrightarrow> ?m' ! j = m ! j"
  proof (intro allI impI)
    fix j assume j: "j < length m" and o: "j < d \<or> d + n < j"
    show "?m' ! j = m ! j"
    proof (cases "j < d")
      case True
      then show ?thesis using j by (simp add: a)
    next
      case False
      with o have "d + n < j" by simp
      then obtain q where q: "j = d + n + Suc q" using less_imp_Suc_add by (metis add_Suc_right)
      then have "(0 # drop (Suc (d + n)) m) ! (j - (d + n)) = m ! j" using j by simp
      then show ?thesis unfolding a using \<open>d + n < j\<close> by simp
    qed
  qed
  show "\<exists>m'. string_copy m (Ptr d) (Ptr s) max_len = Inr m'
               \<and> m' = take d m @ take n (drop s m) @ 0 # drop (Suc (d + n)) m
               \<and> n \<le> max_len - 1
               \<and> Suc n \<le> max_len
               \<and> length m' = length m
               \<and> (\<forall>i<n. m' ! (d + i) = m ! (s + i))
               \<and> m' ! (d + n) = 0
               \<and> (\<forall>j<length m. j < d \<or> d + n < j \<longrightarrow> m' ! j = m ! j)"
    by (rule exI [where x = ?m'], intro conjI) (fact r1 r2 r3 r4 r5 r6 r7 r8)+
next
  assume h: "c_string m s L \<and> s < d \<and> d \<le> s + L \<and> d + (max_len - 1) < length m"
  define k where "k = max_len - 1"
  let ?f = "\<lambda>i. m ! (s + i mod (d - s))"
  let ?m' = "take d m @ map ?f [0..<k] @ 0 # drop (Suc (d + k)) m"
  from h have c: "c_string m s L" and sd: "s < d" and dl: "d \<le> s + L"
    and v: "d + (max_len - 1) < length m" by blast+
  have vk: "d + k < length m" using v by (simp add: k_def)
  have l: "length (take d m) = d" "length (map ?f [0..<k]) = k" using vk by simp_all
  note a = nth_append3 [OF l, of "0 # drop (Suc (d + k)) m"]
  have r1: "string_copy m (Ptr d) (Ptr s) max_len = Inr ?m'"
    unfolding k_def by (rule string_copy_overlap [OF assms c sd dl v])
  have r2: "?m' = ?m'" by (rule refl)
  have r3: "length ?m' = length m" using vk by simp
  have r4: "\<forall>i<k. ?m' ! (d + i) = ?f i" by (simp add: a)
  have r5: "?m' ! (d + k) = 0" by (simp add: a)
  have r6: "\<forall>j<length m. j < d \<or> d + k < j \<longrightarrow> ?m' ! j = m ! j"
  proof (intro allI impI)
    fix j assume j: "j < length m" and o: "j < d \<or> d + k < j"
    show "?m' ! j = m ! j"
    proof (cases "j < d")
      case True
      then show ?thesis using j by (simp add: a)
    next
      case False
      with o have "d + k < j" by simp
      then obtain q where q: "j = d + k + Suc q" using less_imp_Suc_add by (metis add_Suc_right)
      then have "(0 # drop (Suc (d + k)) m) ! (j - (d + k)) = m ! j" using j by simp
      then show ?thesis unfolding a using \<open>d + k < j\<close> by simp
    qed
  qed
  have "\<exists>m'. string_copy m (Ptr d) (Ptr s) max_len = Inr m'
               \<and> m' = take d m @ map ?f [0..<k] @ 0 # drop (Suc (d + k)) m
               \<and> length m' = length m
               \<and> (\<forall>i<k. m' ! (d + i) = ?f i)
               \<and> m' ! (d + k) = 0
               \<and> (\<forall>j<length m. j < d \<or> d + k < j \<longrightarrow> m' ! j = m ! j)"
    by (rule exI [where x = ?m'], intro conjI) (fact r1 r2 r3 r4 r5 r6)+
  then show "\<exists>m'. string_copy m (Ptr d) (Ptr s) max_len = Inr m'
               \<and> m' = take d m @ map (\<lambda>i. m ! (s + i mod (d - s))) [0..<max_len - 1]
                        @ 0 # drop (Suc (d + (max_len - 1))) m
               \<and> length m' = length m
               \<and> (\<forall>i<max_len - 1. m' ! (d + i) = m ! (s + i mod (d - s)))
               \<and> m' ! (d + (max_len - 1)) = 0
               \<and> (\<forall>j<length m. j < d \<or> d + (max_len - 1) < j \<longrightarrow> m' ! j = m ! j)"
    unfolding k_def .
qed

text \<open>\<open>string_copy(dest, "hello", 3)\<close> on a destination of six \<^verbatim>\<open>'x'\<close> (120): it becomes
  \<^verbatim>\<open>'h'\<close>, \<^verbatim>\<open>'e'\<close>, 0 and then the three \<^verbatim>\<open>'x'\<close> untouched. A source shorter than
  \<open>max_len - 1\<close>: \<^verbatim>\<open>"hi"\<close> with \<open>max_len = 5\<close> writes three bytes. In place
  (\<open>dest = src\<close>, \<^verbatim>\<open>"hi!"\<close>, \<open>max_len = 3\<close>) and with \<open>dest = src - 1\<close> the copy is that of
  the initial bytes. With \<open>dest = src + 1\<close> the copy reads what it has just written and
  stops with the terminator at index \<open>max_len - 1 = 3\<close>.\<close>

theorem string_copy_bounded_witness:
  "c_string [120, 120, 120, 120, 120, 120, 104, 101, 108, 108, 111, 0] 6 5
   \<and> string_copy [120, 120, 120, 120, 120, 120, 104, 101, 108, 108, 111, 0] (Ptr 0) (Ptr 6) 3
       = Inr [104, 101, 0, 120, 120, 120, 104, 101, 108, 108, 111, 0]
   \<and> c_string [104, 105, 0, 120, 120, 120, 120, 120] 0 2
   \<and> string_copy [104, 105, 0, 120, 120, 120, 120, 120] (Ptr 3) (Ptr 0) 5
       = Inr [104, 105, 0, 104, 105, 0, 120, 120]
   \<and> c_string [104, 105, 33, 0, 120] 0 3
   \<and> string_copy [104, 105, 33, 0, 120] (Ptr 0) (Ptr 0) 3 = Inr [104, 105, 0, 0, 120]
   \<and> c_string [120, 104, 105, 0, 120] 1 2
   \<and> string_copy [120, 104, 105, 0, 120] (Ptr 0) (Ptr 1) 5 = Inr [104, 105, 0, 0, 120]
   \<and> c_string [97, 98, 0, 120, 120, 120] 0 2
   \<and> string_copy [97, 98, 0, 120, 120, 120] (Ptr 1) (Ptr 0) 4 = Inr [97, 97, 97, 97, 0, 120]
   \<and> (\<exists>k<4. [97, 97, 97, 97, 0, 120 :: char_t] ! (1 + k) = 0)"
proof -
  have p3: "(0::nat) < 3" and p4: "(0::nat) < 4" and p5: "(0::nat) < 5" by simp_all
  have c1: "c_string [120, 120, 120, 120, 120, 120, 104, 101, 108, 108, 111, 0] 6 5"
    by (simp add: c_string_def)
  from string_copy_bounded [OF p3, THEN conjunct2, THEN conjunct1,
      of "[120, 120, 120, 120, 120, 120, 104, 101, 108, 108, 111, 0]" 6 5 2 0] c1
  have r1: "string_copy [120, 120, 120, 120, 120, 120, 104, 101, 108, 108, 111, 0] (Ptr 0) (Ptr 6) 3
       = Inr [104, 101, 0, 120, 120, 120, 104, 101, 108, 108, 111, 0]"
    by simp
  have c2: "c_string [104, 105, 0, 120, 120, 120, 120, 120] 0 2"
    by (simp add: c_string_def)
  from string_copy_bounded [OF p5, THEN conjunct2, THEN conjunct1,
      of "[104, 105, 0, 120, 120, 120, 120, 120]" 0 2 2 3] c2
  have r2: "string_copy [104, 105, 0, 120, 120, 120, 120, 120] (Ptr 3) (Ptr 0) 5
       = Inr [104, 105, 0, 104, 105, 0, 120, 120]"
    by simp
  have c3: "c_string [104, 105, 33, 0, 120] 0 3"
    by (simp add: c_string_def)
  from string_copy_bounded [OF p3, THEN conjunct2, THEN conjunct1,
      of "[104, 105, 33, 0, 120]" 0 3 2 0] c3
  have r3: "string_copy [104, 105, 33, 0, 120] (Ptr 0) (Ptr 0) 3 = Inr [104, 105, 0, 0, 120]"
    by simp
  have c4: "c_string [120, 104, 105, 0, 120] 1 2"
    by (simp add: c_string_def)
  from string_copy_bounded [OF p5, THEN conjunct2, THEN conjunct1,
      of "[120, 104, 105, 0, 120]" 1 2 2 0] c4
  have r4: "string_copy [120, 104, 105, 0, 120] (Ptr 0) (Ptr 1) 5 = Inr [104, 105, 0, 0, 120]"
    by simp
  have c5: "c_string [97, 98, 0, 120, 120, 120] 0 2"
    by (simp add: c_string_def)
  from string_copy_bounded [OF p4, THEN conjunct2, THEN conjunct2,
      of "[97, 98, 0, 120, 120, 120]" 0 2 1] c5
  have r5: "string_copy [97, 98, 0, 120, 120, 120] (Ptr 1) (Ptr 0) 4 = Inr [97, 97, 97, 97, 0, 120]"
    by (simp add: upt_rec)
  from string_copy_bounded [OF p4, THEN conjunct1, rule_format, OF r5]
  have r6: "\<exists>k<4. [97, 97, 97, 97, 0, 120 :: char_t] ! (1 + k) = 0"
    by blast
  from c1 r1 c2 r2 c3 r3 c4 r4 c5 r5 r6 show ?thesis by blast
qed

end
